theory Spec2Isabelle
  imports Main "HOL-Library.Word"
begin

unbundle bit_operations_syntax

section \<open>Data model (main.go, lines 22-47 and 74-77)\<close>

text \<open>
  Go strings are modelled as \<open>string\<close>, a \<open>[]byte\<close> as a list of 8-bit words and a
  \<open>time.Time\<close> as an integer instant (the code only ever copies it).
\<close>

type_synonym byte = "8 word"
type_synonym Time = int

record AudioChunk =
  ChunkID :: string
  UserID :: string
  SessionID :: string
  Timestamp :: Time
  Data :: "byte list"

record Metadata =
  mChunkID :: string
  mUserID :: string
  mSessionID :: string
  mTimestamp :: Time
  mChecksum :: string
  mFFT :: string
  mTranscript :: string

text \<open>The zero value of the struct, which Go returns beside \<open>ok = false\<close>.\<close>

definition zero_Metadata :: Metadata where
  "zero_Metadata =
     \<lparr>mChunkID = [], mUserID = [], mSessionID = [], mTimestamp = 0,
      mChecksum = [], mFFT = [], mTranscript = []\<rparr>"

section \<open>MemoryStore (main.go, lines 40-72)\<close>

text \<open>
  The store is the map \<open>metadata\<close>; the mutex has no effect on a single operation and
  every operation is modelled as one atomic function of the map.
\<close>

type_synonym MemoryStore = "string \<rightharpoonup> Metadata"

definition NewMemoryStore :: MemoryStore where
  "NewMemoryStore = Map.empty"

definition Save :: "MemoryStore \<Rightarrow> Metadata \<Rightarrow> MemoryStore" where
  "Save s meta = s(mChunkID meta \<mapsto> meta)"

definition Get :: "MemoryStore \<Rightarrow> string \<Rightarrow> Metadata \<times> bool" where
  "Get s cid = (case s cid of Some m \<Rightarrow> (m, True) | None \<Rightarrow> (zero_Metadata, False))"

text \<open>
  \<open>ListByUser\<close> ranges over the map. Go leaves the iteration order of a map open, so the
  order is an argument: the keys in the order in which this \<open>range\<close> visits them.
  \<open>range_order s ks\<close> says that \<open>ks\<close> is such an order (every key once).
\<close>

definition range_order :: "MemoryStore \<Rightarrow> string list \<Rightarrow> bool" where
  "range_order s ks \<longleftrightarrow> distinct ks \<and> set ks = dom s"

fun ListByUser_loop :: "MemoryStore \<Rightarrow> string \<Rightarrow> string list \<Rightarrow> Metadata list \<Rightarrow> Metadata list" where
  "ListByUser_loop s userID [] result = result"
| "ListByUser_loop s userID (k # ks) result =
     (case s k of
        None \<Rightarrow> ListByUser_loop s userID ks result
      | Some m \<Rightarrow>
          if mUserID m = userID then ListByUser_loop s userID ks (result @ [m])
          else ListByUser_loop s userID ks result)"

definition ListByUser :: "MemoryStore \<Rightarrow> string list \<Rightarrow> string \<Rightarrow> Metadata list" where
  "ListByUser s ks userID = ListByUser_loop s userID ks []"

text \<open>Every record sits under its own identifier.\<close>

definition keyed_by_chunk_id :: "MemoryStore \<Rightarrow> bool" where
  "keyed_by_chunk_id s \<longleftrightarrow> (\<forall>k m. s k = Some m \<longrightarrow> mChunkID m = k)"

text \<open>The linear scan of the specification: the stored records of one submitter.\<close>

definition records_of :: "MemoryStore \<Rightarrow> string \<Rightarrow> Metadata set" where
  "records_of s u = {m \<in> ran s. mUserID m = u}"

text \<open>No identifier is held by two entries of the store.\<close>

definition unique_chunk_ids :: "MemoryStore \<Rightarrow> bool" where
  "unique_chunk_ids s \<longleftrightarrow>
     (\<forall>k k' m m'. s k = Some m \<and> s k' = Some m' \<and> mChunkID m = mChunkID m' \<longrightarrow> k = k')"

text \<open>The records of the tests (\<open>TestMemoryStore_ListByUser\<close>) and of scenario B.\<close>

definition meta1 :: Metadata where
  "meta1 = \<lparr>mChunkID = ''chunk1'', mUserID = ''user1'', mSessionID = ''session1'',
     mTimestamp = 1, mChecksum = ''checksum1'', mFFT = ''100Hz'',
     mTranscript = ''Test transcript''\<rparr>"

definition meta2 :: Metadata where
  "meta2 = \<lparr>mChunkID = ''chunk2'', mUserID = ''user1'', mSessionID = ''session2'',
     mTimestamp = 2, mChecksum = ''checksum2'', mFFT = ''200Hz'',
     mTranscript = ''Test transcript 2''\<rparr>"

definition meta3 :: Metadata where
  "meta3 = \<lparr>mChunkID = ''chunk3'', mUserID = ''user2'', mSessionID = ''session3'',
     mTimestamp = 3, mChecksum = ''checksum3'', mFFT = ''300Hz'',
     mTranscript = ''Test transcript 3''\<rparr>"

definition store3 :: MemoryStore where
  "store3 = Save (Save (Save NewMemoryStore meta1) meta2) meta3"

section \<open>The transformation of one chunk (main.go, lines 85-94)\<close>

subsection \<open>\<open>sha256.Sum256\<close>\<close>

text \<open>
  \<open>crypto/sha256\<close> is Go's standard library. \<open>Sum256\<close> is modelled by the algorithm it
  implements (SHA-256 of FIPS 180-4, as in the library's generic block function): the
  data is followed by the byte \<open>0x80\<close>, zero bytes up to 56 modulo 64 and the bit length
  as eight big-endian bytes; every 64-byte block is expanded to 64 words and run through
  64 rounds; the digest is the eight state words, big-endian.
\<close>

type_synonym u32 = "32 word"

definition rotr :: "nat \<Rightarrow> u32 \<Rightarrow> u32" where
  "rotr n x = drop_bit n x OR push_bit (32 - n) x"

text \<open>
  The round constants \<open>_K\<close> of the library, written in decimal: the first 32 bits of the
  fractional parts of the cube roots of the first 64 primes.
\<close>

definition K256 :: "u32 list" where
  "K256 =
    [1116352408, 1899447441, 3049323471, 3921009573, 961987163, 1508970993,
     2453635748, 2870763221, 3624381080, 310598401, 607225278, 1426881987,
     1925078388, 2162078206, 2614888103, 3248222580, 3835390401, 4022224774,
     264347078, 604807628, 770255983, 1249150122, 1555081692, 1996064986,
     2554220882, 2821834349, 2952996808, 3210313671, 3336571891, 3584528711,
     113926993, 338241895, 666307205, 773529912, 1294757372, 1396182291,
     1695183700, 1986661051, 2177026350, 2456956037, 2730485921, 2820302411,
     3259730800, 3345764771, 3516065817, 3600352804, 4094571909, 275423344,
     430227734, 506948616, 659060556, 883997877, 958139571, 1322822218,
     1537002063, 1747873779, 1955562222, 2024104815, 2227730452, 2361852424,
     2428436474, 2756734187, 3204031479, 3329325298]"

text \<open>What "the first 32 bits of the fractional part of the cube root of \<open>p\<close>" means.\<close>

definition primes64 :: "nat list" where
  "primes64 = [2, 3, 5, 7, 11, 13, 17, 19, 23, 29, 31, 37, 41, 43, 47, 53, 59, 61, 67, 71, 73,
     79, 83, 89, 97, 101, 103, 107, 109, 113, 127, 131, 137, 139, 149, 151, 157, 163, 167,
     173, 179, 181, 191, 193, 197, 199, 211, 223, 227, 229, 233, 239, 241, 251, 257, 263,
     269, 271, 277, 281, 283, 293, 307, 311]"

definition cube_root_bits :: "nat \<Rightarrow> u32 \<Rightarrow> bool" where
  "cube_root_bits p k =
     (let r = (if p < 8 then 1 else if p < 27 then 2 else if p < 64 then 3
               else if p < 125 then 4 else if p < 216 then 5 else 6);
          c = 4294967296 * r + unat k
      in c * c * c \<le> p * 79228162514264337593543950336 \<and>
         p * 79228162514264337593543950336 < (c + 1) * (c + 1) * (c + 1))"

type_synonym regs = "u32 \<times> u32 \<times> u32 \<times> u32 \<times> u32 \<times> u32 \<times> u32 \<times> u32"

definition init256 :: regs where
  "init256 = (0x6a09e667, 0xbb67ae85, 0x3c6ef372, 0xa54ff53a,
              0x510e527f, 0x9b05688c, 0x1f83d9ab, 0x5be0cd19)"

fun be32 :: "byte list \<Rightarrow> u32 list" where
  "be32 (a # b # c # d # p) =
     (push_bit 24 (ucast a) OR push_bit 16 (ucast b) OR push_bit 8 (ucast c) OR ucast d) # be32 p"
| "be32 p = []"

text \<open>
  The message schedule. The list holds the words computed so far, newest first, so that
  \<open>w ! 1\<close> is \<open>w[i-2]\<close>, \<open>w ! 6\<close> is \<open>w[i-7]\<close>, \<open>w ! 14\<close> is \<open>w[i-15]\<close> and \<open>w ! 15\<close> is
  \<open>w[i-16]\<close>; the first argument counts the words still to add.
\<close>

fun schedule :: "nat \<Rightarrow> u32 list \<Rightarrow> u32 list" where
  "schedule 0 w = w"
| "schedule (Suc n) w =
     (let v1 = w ! 1;
          t1 = rotr 17 v1 XOR rotr 19 v1 XOR drop_bit 10 v1;
          v2 = w ! 14;
          t2 = rotr 7 v2 XOR rotr 18 v2 XOR drop_bit 3 v2
      in schedule n ((t1 + w ! 6 + t2 + w ! 15) # w))"

fun round256 :: "regs \<Rightarrow> u32 \<Rightarrow> u32 \<Rightarrow> regs" where
  "round256 (a, b, c, d, e, f, g, h) k w =
     (let t1 = h + (rotr 6 e XOR rotr 11 e XOR rotr 25 e) + ((e AND f) XOR (NOT e AND g)) + k + w;
          t2 = (rotr 2 a XOR rotr 13 a XOR rotr 22 a) + ((a AND b) XOR (a AND c) XOR (b AND c))
      in (t1 + t2, a, b, c, d + t1, e, f, g))"

fun rounds :: "regs \<Rightarrow> u32 list \<Rightarrow> u32 list \<Rightarrow> regs" where
  "rounds r (k # ks) (w # ws) = rounds (round256 r k w) ks ws"
| "rounds r _ _ = r"

fun block :: "regs \<Rightarrow> byte list \<Rightarrow> regs" where
  "block (h0, h1, h2, h3, h4, h5, h6, h7) p =
     (case rounds (h0, h1, h2, h3, h4, h5, h6, h7) K256 (rev (schedule 48 (rev (be32 p)))) of
        (a, b, c, d, e, f, g, h) \<Rightarrow> (h0 + a, h1 + b, h2 + c, h3 + d, h4 + e, h5 + f, h6 + g, h7 + h))"

function blocks :: "regs \<Rightarrow> byte list \<Rightarrow> regs" where
  "blocks h p = (if length p < 64 then h else blocks (block h (take 64 p)) (drop 64 p))"
  by pat_completeness auto
termination by (relation "measure (\<lambda>(h, p). length p)") auto

declare blocks.simps [simp del]

definition be_bytes32 :: "u32 \<Rightarrow> byte list" where
  "be_bytes32 x = [ucast (drop_bit 24 x), ucast (drop_bit 16 x), ucast (drop_bit 8 x), ucast x]"

definition be_bytes64 :: "64 word \<Rightarrow> byte list" where
  "be_bytes64 x = [ucast (drop_bit 56 x), ucast (drop_bit 48 x), ucast (drop_bit 40 x),
     ucast (drop_bit 32 x), ucast (drop_bit 24 x), ucast (drop_bit 16 x), ucast (drop_bit 8 x), ucast x]"

definition padding :: "nat \<Rightarrow> byte list" where
  "padding len =
     (let t = (if len mod 64 < 56 then 56 - len mod 64 else 64 + 56 - len mod 64)
      in 0x80 # replicate (t - 1) 0 @ be_bytes64 (push_bit 3 (of_nat len)))"

definition Sum256 :: "byte list \<Rightarrow> byte list" where
  "Sum256 data =
     (case blocks init256 (data @ padding (length data)) of
        (h0, h1, h2, h3, h4, h5, h6, h7) \<Rightarrow>
          be_bytes32 h0 @ be_bytes32 h1 @ be_bytes32 h2 @ be_bytes32 h3 @
          be_bytes32 h4 @ be_bytes32 h5 @ be_bytes32 h6 @ be_bytes32 h7)"


subsection \<open>\<open>fmt.Sprintf\<close> and \<open>rand.Intn\<close>\<close>

text \<open>\<open>fmt.Sprintf("%x", sha)\<close> on a byte array: two lower-case hex digits per byte.\<close>

definition hex_digit :: "byte \<Rightarrow> char" where
  "hex_digit n = ''0123456789abcdef'' ! unat n"

definition hex_byte :: "byte \<Rightarrow> string" where
  "hex_byte b = [hex_digit (drop_bit 4 b), hex_digit (b AND 0xf)]"

definition Sprintf_x :: "byte list \<Rightarrow> string" where
  "Sprintf_x bs = concat (map hex_byte bs)"

text \<open>\<open>%d\<close>: the decimal digits of an integer, with a minus sign when negative.\<close>

fun dec_nat :: "nat \<Rightarrow> string" where
  "dec_nat n =
     (if n < 10 then [char_of (48 + n)] else dec_nat (n div 10) @ [char_of (48 + n mod 10)])"

declare dec_nat.simps [simp del]

definition Sprintf_d :: "int \<Rightarrow> string" where
  "Sprintf_d i = (if i < 0 then CHR ''-'' # dec_nat (nat (- i)) else dec_nat (nat i))"

text \<open>
  \<open>rand.Intn(n)\<close> panics when \<open>n \<le> 0\<close> and otherwise returns some integer of \<open>[0, n)\<close>.
  The draw of the random source is the argument \<open>r\<close>.
\<close>

datatype error = IntnInvalidArgument

definition rand_Intn :: "int \<Rightarrow> int \<Rightarrow> error + int" where
  "rand_Intn n r = (if n \<le> 0 then Inl IntnInvalidArgument else Inr (r mod n))"

subsection \<open>The body of the \<open>case job := <-in\<close> branch\<close>

text \<open>
  \<open>transform r chunk\<close> is what \<open>TransformStage\<close> computes for one dequeued job, from
  \<open>sha256.Sum256\<close> to the \<open>Metadata\<close> literal; \<open>r\<close> is the draw of \<open>rand.Intn\<close>. A panic
  of the library calls is the \<open>Inl\<close> result.
\<close>

definition transform :: "int \<Rightarrow> AudioChunk \<Rightarrow> error + Metadata" where
  "transform r chunk =
     (let sha = Sum256 (Data chunk) in
      case rand_Intn 10000 r of
        Inl e \<Rightarrow> Inl e
      | Inr v \<Rightarrow>
          Inr \<lparr>mChunkID = ChunkID chunk,
               mUserID = UserID chunk,
               mSessionID = SessionID chunk,
               mTimestamp = Timestamp chunk,
               mChecksum = Sprintf_x sha,
               mFFT = Sprintf_d v @ ''Hz'',
               mTranscript = ''Hello World''\<rparr>)"

text \<open>The bytes of \<open>"hello"\<close> and the chunk of scenario A.\<close>

definition hello :: "byte list" where
  "hello = [0x68, 0x65, 0x6c, 0x6c, 0x6f]"

definition chunkA :: AudioChunk where
  "chunkA = \<lparr>ChunkID = ''c-1'', UserID = ''u1'', SessionID = ''s1'', Timestamp = 1700000000,
     Data = hello\<rparr>"

section \<open>JSON forms (struct tags of main.go, lines 22-38; replies of lines 124-125 and 178-183)\<close>

text \<open>
  \<open>encoding/json\<close> writes a struct as an object with one member per exported field, named
  by the field's \<open>json\<close> tag, in the order of declaration, and leaves out a field whose tag
  is \<open>"-"\<close>. A struct is described by its fields: Go name, tag and value.
\<close>

datatype json =
    JString string
  | JTime Time
  | JBytes "byte list"
  | JBool bool
  | JObject "(string \<times> json) list"

type_synonym field = "string \<times> string \<times> json"

definition Marshal_struct :: "field list \<Rightarrow> json" where
  "Marshal_struct fs = JObject (map (\<lambda>(name, tag, v). (tag, v)) (filter (\<lambda>(name, tag, v). tag \<noteq> ''-'') fs))"

definition AudioChunk_fields :: "AudioChunk \<Rightarrow> field list" where
  "AudioChunk_fields c =
     [(''ChunkID'', ''chunk_id'', JString (ChunkID c)),
      (''UserID'', ''user_id'', JString (UserID c)),
      (''SessionID'', ''session_id'', JString (SessionID c)),
      (''Timestamp'', ''timestamp'', JTime (Timestamp c)),
      (''Data'', ''-'', JBytes (Data c))]"

definition Metadata_fields :: "Metadata \<Rightarrow> field list" where
  "Metadata_fields m =
     [(''ChunkID'', ''chunk_id'', JString (mChunkID m)),
      (''UserID'', ''user_id'', JString (mUserID m)),
      (''SessionID'', ''session_id'', JString (mSessionID m)),
      (''Timestamp'', ''timestamp'', JTime (mTimestamp m)),
      (''Checksum'', ''checksum'', JString (mChecksum m)),
      (''FFT'', ''fft'', JString (mFFT m)),
      (''Transcript'', ''transcript'', JString (mTranscript m))]"

definition Marshal_AudioChunk :: "AudioChunk \<Rightarrow> json" where
  "Marshal_AudioChunk c = Marshal_struct (AudioChunk_fields c)"

definition Marshal_Metadata :: "Metadata \<Rightarrow> json" where
  "Marshal_Metadata m = Marshal_struct (Metadata_fields m)"

text \<open>The reply of \<open>handleUpload\<close> and the acknowledgement of \<open>handleWebSocket\<close>.\<close>

definition upload_reply :: "Metadata \<Rightarrow> json" where
  "upload_reply meta = Marshal_Metadata meta"

definition ws_reply :: "Metadata \<Rightarrow> json" where
  "ws_reply meta =
     JObject [(''ack'', JBool True),
              (''chunk_id'', JString (mChunkID meta)),
              (''metadata'', Marshal_Metadata meta),
              (''transcript'', JString (mTranscript meta))]"

text \<open>The member names of a JSON value, at every depth.\<close>

fun json_keys :: "json \<Rightarrow> string list" where
  "json_keys (JObject kvs) = concat (map (\<lambda>(k, v). k # json_keys v) kvs)"
| "json_keys _ = []"

text \<open>The byte sequences a JSON value carries.\<close>

fun json_bytes :: "json \<Rightarrow> byte list list" where
  "json_bytes (JBytes bs) = [bs]"
| "json_bytes (JObject kvs) = concat (map (\<lambda>(k, v). json_bytes v) kvs)"
| "json_bytes _ = []"

section \<open>The handlers' chunks (main.go, lines 107-116 and 165-171)\<close>

text \<open>
  A request is seen through its query parameters. \<open>r.URL.Query().Get(k)\<close> is the
  first entry for \<open>k\<close>, or the empty string. The fresh UUID and the clock reading are
  arguments.
\<close>

type_synonym query = "(string \<times> string) list"

definition Query_Get :: "query \<Rightarrow> string \<Rightarrow> string" where
  "Query_Get q k = (case map_of q k of Some v \<Rightarrow> v | None \<Rightarrow> [])"

definition upload_chunk :: "query \<Rightarrow> string \<Rightarrow> Time \<Rightarrow> byte list \<Rightarrow> AudioChunk" where
  "upload_chunk q uuid now data =
     \<lparr>ChunkID = uuid, UserID = Query_Get q ''user_id'', SessionID = Query_Get q ''session_id'',
      Timestamp = now, Data = data\<rparr>"

definition ws_chunk :: "query \<Rightarrow> string \<Rightarrow> Time \<Rightarrow> byte list \<Rightarrow> AudioChunk" where
  "ws_chunk q uuid now msg =
     \<lparr>ChunkID = uuid, UserID = ''user1'', SessionID = ''sess1'', Timestamp = now, Data = msg\<rparr>"

section \<open>The pipeline: handlers, queue and worker (main.go, lines 74-98, 118-122, 173-177, 191-196)\<close>

text \<open>
  The goroutines are modelled by interleaving. A state holds the buffered channel \<open>jobs\<close>
  (a list, oldest first), whether \<open>ctx\<close> has been cancelled, the place of the single worker
  in \<open>TransformStage\<close>, the place of every handler goroutine, and the store. Every
  \<open>make(chan Metadata)\<close> gives a channel that was never used before: channels are numbered
  and \<open>next_chan\<close> is the first unused number. Two lists record history and influence no
  step: \<open>dequeued\<close>, the jobs the worker has received with the draw of \<open>rand.Intn\<close> used for
  each, and \<open>sent\<close>, the values written to result channels, in order.
\<close>

type_synonym chan = nat

record Job =
  Chunk :: AudioChunk
  Result :: chan

datatype wpc =
    WSelect                \<comment> \<open>at the \<open>select\<close>, line 81\<close>
  | WSend Job Metadata     \<comment> \<open>at \<open>job.Result <- meta\<close>, line 95\<close>
  | WReturned              \<comment> \<open>after \<open>return\<close>, line 83\<close>
  | WPanicked error        \<comment> \<open>a library call of lines 85-94 panicked\<close>

datatype hpc =
    HIdle                  \<comment> \<open>no request or message in progress\<close>
  | HSend Job              \<comment> \<open>at \<open>jobs <- Job{...}\<close>, lines 119 and 174\<close>
  | HRecv Job              \<comment> \<open>at \<open>meta := <-result\<close>, lines 121 and 176\<close>
  | HGot Metadata          \<comment> \<open>before \<open>store.Save(meta)\<close>, lines 122 and 177\<close>

record world =
  jobs :: "Job list"
  cancelled :: bool
  worker :: wpc
  hs :: "nat \<Rightarrow> hpc"
  next_chan :: chan
  store :: MemoryStore
  dequeued :: "(Job \<times> int) list"
  sent :: "(chan \<times> Metadata) list"

text \<open>
  The state \<open>main\<close> sets up before serving: an empty \<open>jobs\<close> channel, a live context, the
  worker started, an empty store.
\<close>

definition init :: world where
  "init = \<lparr>jobs = [], cancelled = False, worker = WSelect, hs = (\<lambda>i. HIdle), next_chan = 0,
           store = NewMemoryStore, dequeued = [], sent = []\<rparr>"

text \<open>
  The atomic steps. \<open>Upload\<close> and \<open>WsMessage\<close>: handler \<open>i\<close> builds its chunk and its result
  channel. \<open>Submit\<close>: its send on \<open>jobs\<close> goes through. \<open>Dequeue\<close>: the worker's \<open>select\<close>
  takes the receive branch and computes the metadata. \<open>Exit\<close>: the \<open>select\<close> takes
  \<open>ctx.Done()\<close>. \<open>Deliver\<close>: the worker's send on the unbuffered result channel meets the
  receive of handler \<open>i\<close>. \<open>Respond\<close>: handler \<open>i\<close> saves the metadata and replies.
\<close>

datatype action =
    Cancel
  | Upload nat query string Time "byte list"
  | WsMessage nat query string Time "byte list"
  | Submit nat
  | Dequeue int
  | Exit
  | Deliver nat
  | Respond nat

text \<open>
  A send on a buffered channel of capacity \<open>cap\<close> goes through when the buffer has room
  and blocks otherwise (\<open>None\<close>). The capacity is 100 in \<open>main\<close>.
\<close>

definition chan_send :: "nat \<Rightarrow> 'a list \<Rightarrow> 'a \<Rightarrow> 'a list option" where
  "chan_send cap buf x = (if length buf < cap then Some (buf @ [x]) else None)"

definition new_job :: "world \<Rightarrow> nat \<Rightarrow> AudioChunk \<Rightarrow> world option" where
  "new_job s i chunk =
     (case hs s i of
        HIdle \<Rightarrow>
          Some (s\<lparr>hs := (hs s)(i := HSend \<lparr>Chunk = chunk, Result = next_chan s\<rparr>),
                  next_chan := Suc (next_chan s)\<rparr>)
      | _ \<Rightarrow> None)"

text \<open>\<open>step cap s a\<close> is the state after \<open>a\<close>, or \<open>None\<close> when \<open>a\<close> cannot happen in \<open>s\<close>.\<close>

fun step :: "nat \<Rightarrow> world \<Rightarrow> action \<Rightarrow> world option" where
  "step cap s Cancel = Some (s\<lparr>cancelled := True\<rparr>)"
| "step cap s (Upload i q uuid now data) = new_job s i (upload_chunk q uuid now data)"
| "step cap s (WsMessage i q uuid now msg) = new_job s i (ws_chunk q uuid now msg)"
| "step cap s (Submit i) =
     (case hs s i of
        HSend job \<Rightarrow>
          (case chan_send cap (jobs s) job of
             Some buf \<Rightarrow> Some (s\<lparr>jobs := buf, hs := (hs s)(i := HRecv job)\<rparr>)
           | None \<Rightarrow> None)
      | _ \<Rightarrow> None)"
| "step cap s (Dequeue r) =
     (case (worker s, jobs s) of
        (WSelect, job # rest) \<Rightarrow>
          Some (s\<lparr>jobs := rest,
                  worker := (case transform r (Chunk job) of
                               Inl e \<Rightarrow> WPanicked e
                             | Inr meta \<Rightarrow> WSend job meta),
                  dequeued := dequeued s @ [(job, r)]\<rparr>)
      | _ \<Rightarrow> None)"
| "step cap s Exit =
     (case worker s of
        WSelect \<Rightarrow> if cancelled s then Some (s\<lparr>worker := WReturned\<rparr>) else None
      | _ \<Rightarrow> None)"
| "step cap s (Deliver i) =
     (case (worker s, hs s i) of
        (WSend job meta, HRecv job') \<Rightarrow>
          if Result job = Result job'
          then Some (s\<lparr>worker := WSelect, hs := (hs s)(i := HGot meta),
                       sent := sent s @ [(Result job, meta)]\<rparr>)
          else None
      | _ \<Rightarrow> None)"
| "step cap s (Respond i) =
     (case hs s i of
        HGot meta \<Rightarrow> Some (s\<lparr>store := Save (store s) meta, hs := (hs s)(i := HIdle)\<rparr>)
      | _ \<Rightarrow> None)"

fun run :: "nat \<Rightarrow> world \<Rightarrow> action list \<Rightarrow> world option" where
  "run cap s [] = Some s"
| "run cap s (a # as) = (case step cap s a of None \<Rightarrow> None | Some s' \<Rightarrow> run cap s' as)"

text \<open>Handler \<open>i\<close> is at its send on \<open>jobs\<close> and the send cannot go through.\<close>

definition blocked_on_submit :: "nat \<Rightarrow> world \<Rightarrow> nat \<Rightarrow> bool" where
  "blocked_on_submit cap s i =
     (case hs s i of HSend job \<Rightarrow> step cap s (Submit i) = None | _ \<Rightarrow> False)"

text \<open>
  The write the worker is in the middle of: at line 95 it holds one job and its metadata.
\<close>

definition pending :: "world \<Rightarrow> (chan \<times> Metadata) list" where
  "pending s = (case worker s of WSend job meta \<Rightarrow> [(Result job, meta)] | _ \<Rightarrow> [])"

text \<open>A write answers a dequeued job: the job's own channel, the job's metadata.\<close>

definition answers :: "Job \<times> int \<Rightarrow> chan \<times> Metadata \<Rightarrow> bool" where
  "answers d w = (fst w = Result (fst d) \<and> transform (snd d) (Chunk (fst d)) = Inr (snd w))"

text \<open>The number of values written so far, or being written, to a channel.\<close>

definition writes_on :: "world \<Rightarrow> chan \<Rightarrow> nat" where
  "writes_on s c = length (filter (\<lambda>w. fst w = c) (sent s @ pending s))"

text \<open>The channel a handler waits with.\<close>

definition chan_of :: "hpc \<Rightarrow> chan option" where
  "chan_of h = (case h of HSend job \<Rightarrow> Some (Result job) | HRecv job \<Rightarrow> Some (Result job)
                | _ \<Rightarrow> None)"

text \<open>The channels of the jobs in the queue and of the jobs dequeued so far.\<close>

definition taken :: "world \<Rightarrow> chan list" where
  "taken s = map Result (jobs s) @ map (\<lambda>d. Result (fst d)) (dequeued s)"

text \<open>What every step keeps true, from \<open>init\<close> on.\<close>

definition inv :: "world \<Rightarrow> bool" where
  "inv s \<longleftrightarrow>
     list_all2 answers (dequeued s) (sent s @ pending s) \<and>
     distinct (taken s) \<and>
     (\<forall>c \<in> set (taken s). c < next_chan s) \<and>
     (\<forall>i job. hs s i = HSend job \<longrightarrow> Result job \<notin> set (taken s)) \<and>
     (\<forall>i c. chan_of (hs s i) = Some c \<longrightarrow> c < next_chan s) \<and>
     (\<forall>i i' c. chan_of (hs s i) = Some c \<and> chan_of (hs s i') = Some c \<longrightarrow> i = i') \<and>
     (\<forall>job \<in> set (jobs s). \<exists>i. hs s i = HRecv job) \<and>
     (\<forall>job meta. worker s = WSend job meta \<longrightarrow>
        (\<exists>i. hs s i = HRecv job) \<and> Result job \<in> set (map (\<lambda>d. Result (fst d)) (dequeued s))) \<and>
     (\<forall>e. worker s \<noteq> WPanicked e)"

text \<open>Concrete states and runs used as examples.\<close>

definition job0 :: Job where
  "job0 = \<lparr>Chunk = ws_chunk [(''user_id'', ''mallory'')] ''id-0'' 10 hello, Result = 0\<rparr>"

definition job1 :: Job where
  "job1 = \<lparr>Chunk = upload_chunk [(''user_id'', ''u1'')] ''id-1'' 11 hello, Result = 1\<rparr>"

definition cancelled0 :: world where
  "cancelled0 = init\<lparr>cancelled := True, hs := (\<lambda>i. HIdle)(0 := HSend job0), next_chan := 1\<rparr>"

definition stuck1 :: world where
  "stuck1 = init\<lparr>jobs := [job0], cancelled := True, worker := WReturned,
     hs := (\<lambda>i. HIdle)(0 := HRecv job0, 1 := HSend job1), next_chan := 2\<rparr>"

section \<open>Store lemmas\<close>

lemma ListByUser_loop_acc:
  "ListByUser_loop s u ks acc = acc @ ListByUser_loop s u ks []"
proof (induction ks arbitrary: acc)
  case Nil
  show ?case by simp
next
  case (Cons k ks)
  show ?case
  proof (cases "s k")
    case None
    with Cons.IH [of acc] show ?thesis by simp
  next
    case (Some m)
    with Cons.IH [of acc] Cons.IH [of "acc @ [m]"] Cons.IH [of "[m]"]
    show ?thesis by simp
  qed
qed

lemma ListByUser_loop_filter:
  "ListByUser_loop s u ks [] = filter (\<lambda>m. mUserID m = u) (List.map_filter s ks)"
proof (induction ks)
  case Nil
  show ?case by simp
next
  case (Cons k ks)
  show ?case
  proof (cases "s k")
    case None
    with Cons show ?thesis by simp
  next
    case (Some m)
    with Cons ListByUser_loop_acc [of s u ks "[m]"]
    show ?thesis by simp
  qed
qed

lemma set_map_filter_order:
  "set ks = dom s \<Longrightarrow> set (List.map_filter s ks) = ran s"
  by (auto simp: List.map_filter_def ran_def dom_def set_eq_iff image_iff) force+

lemma length_filter_map_filter:
  "distinct ks \<Longrightarrow>
   length (filter P (List.map_filter s ks)) = card {k \<in> set ks. \<exists>m. s k = Some m \<and> P m}"
proof (induction ks)
  case Nil
  show ?case by simp
next
  case (Cons k ks)
  let ?A = "{x \<in> set ks. \<exists>m. s x = Some m \<and> P m}"
  have fin: "finite ?A" by simp
  have notin: "k \<notin> ?A" using Cons.prems by simp
  have IH: "length (filter P (List.map_filter s ks)) = card ?A"
    using Cons by simp
  show ?case
  proof (cases "\<exists>m. s k = Some m \<and> P m")
    case True
    then have "{x \<in> set (k # ks). \<exists>m. s x = Some m \<and> P m} = insert k ?A" by auto
    with True IH fin notin show ?thesis by auto
  next
    case False
    then have "{x \<in> set (k # ks). \<exists>m. s x = Some m \<and> P m} = ?A" by auto
    with False IH show ?thesis by (cases "s k") auto
  qed
qed

lemma ListByUser_set:
  "range_order s ks \<Longrightarrow> set (ListByUser s ks u) = records_of s u"
  by (simp add: ListByUser_def ListByUser_loop_filter set_map_filter_order
      range_order_def records_of_def) 

lemma ListByUser_length:
  "range_order s ks \<Longrightarrow>
   length (ListByUser s ks u) = card {k \<in> dom s. \<exists>m. s k = Some m \<and> mUserID m = u}"
  using length_filter_map_filter [of ks "\<lambda>m. mUserID m = u" s]
  by (simp add: ListByUser_def ListByUser_loop_filter range_order_def)

lemma three_saves_matching:
  assumes s: "s = Save (Save (Save NewMemoryStore m1) m2) m3"
    and d: "distinct [mChunkID m1, mChunkID m2, mChunkID m3]"
  shows "{k \<in> dom s. \<exists>m. s k = Some m \<and> mUserID m = u} =
         (if mUserID m1 = u then {mChunkID m1} else {}) \<union>
         (if mUserID m2 = u then {mChunkID m2} else {}) \<union>
         (if mUserID m3 = u then {mChunkID m3} else {})"
  using d unfolding s Save_def NewMemoryStore_def
  by (auto split: if_splits)

lemma three_saves_ran:
  assumes "distinct [mChunkID m1, mChunkID m2, mChunkID m3]"
  shows "ran (Save (Save (Save NewMemoryStore m1) m2) m3) = {m1, m2, m3}"
proof -
  from assms have ne: "mChunkID m1 \<noteq> mChunkID m2" "mChunkID m1 \<noteq> mChunkID m3"
    "mChunkID m2 \<noteq> mChunkID m3" by auto
  have "ran (Save (Save (Save NewMemoryStore m1) m2) m3) =
        insert m3 (ran (Save (Save NewMemoryStore m1) m2))"
    unfolding Save_def [of _ m3] using ne
    by (intro ran_map_upd) (simp add: Save_def NewMemoryStore_def)
  also have "ran (Save (Save NewMemoryStore m1) m2) = insert m2 (ran (Save NewMemoryStore m1))"
    unfolding Save_def [of _ m2] using ne
    by (intro ran_map_upd) (simp add: Save_def NewMemoryStore_def)
  also have "ran (Save NewMemoryStore m1) = {m1}"
    by (simp add: Save_def NewMemoryStore_def)
  finally show ?thesis by auto
qed

lemma scenario_B:
  assumes r: "range_order s ks"
    and s: "s = Save (Save (Save NewMemoryStore m1) m2) m3"
    and d: "distinct [mChunkID m1, mChunkID m2, mChunkID m3]"
    and u: "mUserID m1 = u" "mUserID m2 = u" "mUserID m3 \<noteq> u"
  shows "length (ListByUser s ks u) = 2"
    and "length (ListByUser s ks (mUserID m3)) = 1"
    and "u3 \<noteq> u \<Longrightarrow> u3 \<noteq> mUserID m3 \<Longrightarrow> ListByUser s ks u3 = []"
proof -
  from d have ne: "mChunkID m1 \<noteq> mChunkID m2" "mChunkID m2 \<noteq> mChunkID m1"
    "mChunkID m1 \<noteq> mChunkID m3" "mChunkID m2 \<noteq> mChunkID m3"
    by auto
  have "{k \<in> dom s. \<exists>m. s k = Some m \<and> mUserID m = u} = {mChunkID m1, mChunkID m2}"
    using u by (auto simp: three_saves_matching [OF s d])
  then show "length (ListByUser s ks u) = 2"
    using ne by (simp add: ListByUser_length [OF r])
  have "{k \<in> dom s. \<exists>m. s k = Some m \<and> mUserID m = mUserID m3} = {mChunkID m3}"
    using u by (auto simp: three_saves_matching [OF s d])
  then show "length (ListByUser s ks (mUserID m3)) = 1"
    by (simp add: ListByUser_length [OF r])
  assume "u3 \<noteq> u" "u3 \<noteq> mUserID m3"
  then have "{k \<in> dom s. \<exists>m. s k = Some m \<and> mUserID m = u3} = {}"
    using u by (auto simp: three_saves_matching [OF s d])
  then have "card {k \<in> dom s. \<exists>m. s k = Some m \<and> mUserID m = u3} = 0"
    by (simp only: card.empty)
  then have "length (ListByUser s ks u3) = 0"
    by (simp only: ListByUser_length [OF r])
  then show "ListByUser s ks u3 = []" by simp
qed

lemma keyed_imp_unique: "keyed_by_chunk_id s \<Longrightarrow> unique_chunk_ids s"
proof (unfold unique_chunk_ids_def, intro allI impI)
  fix k k' m m'
  assume k: "keyed_by_chunk_id s"
    and h: "s k = Some m \<and> s k' = Some m' \<and> mChunkID m = mChunkID m'"
  from h have sk: "s k = Some m" and sk': "s k' = Some m'" by simp_all
  from k sk have 1: "mChunkID m = k" unfolding keyed_by_chunk_id_def by blast
  from k sk' have 2: "mChunkID m' = k'" unfolding keyed_by_chunk_id_def by blast
  from 1 2 h show "k = k'" by simp
qed

section \<open>Claims about the store\<close>

text \<open>
  C4. After \<open>Save s m\<close>, \<open>Get\<close> of \<open>m\<close>'s chunk identifier returns \<open>m\<close> itself (all
  fields) with \<open>ok = true\<close>. \<open>Save\<close> is a total function with no error result; it inserts
  or overwrites exactly the entry keyed by the chunk identifier (every other key reads as
  before, and the key set grows by at most that key), and it keeps chunk identifiers
  unique: starting from the empty store, every record sits under its own identifier, so
  no identifier is held by two entries.
\<close>

theorem Save_then_Get:
  "Get (Save s m) (mChunkID m) = (m, True) \<and>
   (\<forall>k. k \<noteq> mChunkID m \<longrightarrow> Get (Save s m) k = Get s k) \<and>
   dom (Save s m) = insert (mChunkID m) (dom s) \<and>
   keyed_by_chunk_id NewMemoryStore \<and>
   (keyed_by_chunk_id s \<longrightarrow> keyed_by_chunk_id (Save s m) \<and> unique_chunk_ids (Save s m))"
proof -
  have a: "Get (Save s m) (mChunkID m) = (m, True)"
    by (simp add: Get_def Save_def)
  have b: "\<forall>k. k \<noteq> mChunkID m \<longrightarrow> Get (Save s m) k = Get s k"
    by (simp add: Get_def Save_def)
  have c: "dom (Save s m) = insert (mChunkID m) (dom s)"
    by (simp add: Save_def)
  have d: "keyed_by_chunk_id NewMemoryStore"
    by (simp add: keyed_by_chunk_id_def NewMemoryStore_def)
  have e: "keyed_by_chunk_id (Save s m)" if "keyed_by_chunk_id s"
    using that by (auto simp: keyed_by_chunk_id_def Save_def)
  from a b c d e keyed_imp_unique show ?thesis by blast
qed

theorem Save_then_Get_witness:
  "keyed_by_chunk_id (Save NewMemoryStore meta1) \<and>
   Get (Save (Save NewMemoryStore meta1) meta2) ''chunk2'' = (meta2, True) \<and>
   ''chunk1'' \<noteq> mChunkID meta2 \<and>
   Get (Save (Save NewMemoryStore meta1) meta2) ''chunk1'' = (meta1, True) \<and>
   keyed_by_chunk_id (Save (Save NewMemoryStore meta1) meta2) \<and>
   unique_chunk_ids (Save (Save NewMemoryStore meta1) meta2)"
proof -
  have k0: "keyed_by_chunk_id NewMemoryStore"
    using Save_then_Get [of NewMemoryStore meta1] by simp
  have k1: "keyed_by_chunk_id (Save NewMemoryStore meta1)"
    using Save_then_Get [of NewMemoryStore meta1] k0 by simp
  have g1: "Get (Save NewMemoryStore meta1) ''chunk1'' = (meta1, True)"
    using Save_then_Get [of NewMemoryStore meta1] by (simp add: meta1_def)
  have ne: "''chunk1'' \<noteq> mChunkID meta2" by (simp add: meta2_def)
  from Save_then_Get [of "Save NewMemoryStore meta1" meta2] k1 g1 ne
  show ?thesis by (simp add: meta2_def)
qed

text \<open>
  C5. For every store, every submitter \<open>u\<close> and every order in which the \<open>range\<close> loop
  may visit the map, \<open>ListByUser\<close> returns exactly the stored records whose user
  identifier is \<open>u\<close> (the linear scan), one list element per matching entry; the order of
  the list is the visiting order and nothing more is promised. In particular, after
  saving into the empty store two records of one submitter and one record of another
  (distinct chunk identifiers), it returns 2 records for the first, 1 for the second and
  none for any third submitter.
\<close>

theorem ListByUser_linear_scan:
  assumes "range_order s ks"
  shows "set (ListByUser s ks u) = records_of s u \<and>
    length (ListByUser s ks u) = card {k \<in> dom s. \<exists>m. s k = Some m \<and> mUserID m = u} \<and>
    (\<forall>m1 m2 m3.
       s = Save (Save (Save NewMemoryStore m1) m2) m3 \<and>
       distinct [mChunkID m1, mChunkID m2, mChunkID m3] \<and>
       mUserID m1 = u \<and> mUserID m2 = u \<and> mUserID m3 \<noteq> u \<longrightarrow>
       length (ListByUser s ks u) = 2 \<and>
       length (ListByUser s ks (mUserID m3)) = 1 \<and>
       (\<forall>u3. u3 \<noteq> u \<and> u3 \<noteq> mUserID m3 \<longrightarrow> ListByUser s ks u3 = []))"
proof (intro conjI allI impI)
  show "set (ListByUser s ks u) = records_of s u"
    by (rule ListByUser_set [OF assms])
  show "length (ListByUser s ks u) = card {k \<in> dom s. \<exists>m. s k = Some m \<and> mUserID m = u}"
    by (rule ListByUser_length [OF assms])
next
  fix m1 m2 m3
  assume h: "s = Save (Save (Save NewMemoryStore m1) m2) m3 \<and>
       distinct [mChunkID m1, mChunkID m2, mChunkID m3] \<and>
       mUserID m1 = u \<and> mUserID m2 = u \<and> mUserID m3 \<noteq> u"
  then show "length (ListByUser s ks u) = 2"
    using scenario_B(1) [OF assms, of m1 m2 m3 u] by simp
next
  fix m1 m2 m3
  assume h: "s = Save (Save (Save NewMemoryStore m1) m2) m3 \<and>
       distinct [mChunkID m1, mChunkID m2, mChunkID m3] \<and>
       mUserID m1 = u \<and> mUserID m2 = u \<and> mUserID m3 \<noteq> u"
  then show "length (ListByUser s ks (mUserID m3)) = 1"
    using scenario_B(2) [OF assms, of m1 m2 m3 u] by simp
next
  fix m1 m2 m3 u3
  assume h: "s = Save (Save (Save NewMemoryStore m1) m2) m3 \<and>
       distinct [mChunkID m1, mChunkID m2, mChunkID m3] \<and>
       mUserID m1 = u \<and> mUserID m2 = u \<and> mUserID m3 \<noteq> u"
    and u3: "u3 \<noteq> u \<and> u3 \<noteq> mUserID m3"
  then show "ListByUser s ks u3 = []"
    using scenario_B(3) [OF assms, of m1 m2 m3 u u3] by simp
qed

theorem ListByUser_linear_scan_witness:
  "range_order store3 [''chunk3'', ''chunk1'', ''chunk2''] \<and>
   set (ListByUser store3 [''chunk3'', ''chunk1'', ''chunk2''] ''user1'') = {meta1, meta2} \<and>
   length (ListByUser store3 [''chunk3'', ''chunk1'', ''chunk2''] ''user1'') = 2 \<and>
   length (ListByUser store3 [''chunk3'', ''chunk1'', ''chunk2''] ''user2'') = 1 \<and>
   ListByUser store3 [''chunk3'', ''chunk1'', ''chunk2''] ''user3'' = []"
proof -
  let ?ks = "[''chunk3'', ''chunk1'', ''chunk2'']"
  have r: "range_order store3 ?ks"
    by (auto simp: range_order_def store3_def Save_def NewMemoryStore_def
        meta1_def meta2_def meta3_def)
  have s: "store3 = Save (Save (Save NewMemoryStore meta1) meta2) meta3"
    by (simp add: store3_def)
  have d: "distinct [mChunkID meta1, mChunkID meta2, mChunkID meta3]"
    by (simp add: meta1_def meta2_def meta3_def)
  have u: "mUserID meta1 = ''user1''" "mUserID meta2 = ''user1''"
    "mUserID meta3 \<noteq> ''user1''" "mUserID meta3 = ''user2''"
    "''user3'' \<noteq> ''user1''" "''user3'' \<noteq> mUserID meta3"
    by (simp_all add: meta1_def meta2_def meta3_def)
  have "ran store3 = {meta1, meta2, meta3}"
    unfolding store3_def by (rule three_saves_ran [OF d])
  then have rec: "records_of store3 ''user1'' = {meta1, meta2}"
    using u by (auto simp: records_of_def)
  note T = ListByUser_linear_scan [OF r, of "''user1''"]
  have a: "set (ListByUser store3 ?ks ''user1'') = {meta1, meta2}"
    using T [THEN conjunct1] rec by simp
  note S = T [THEN conjunct2, THEN conjunct2, rule_format, of meta1 meta2 meta3]
  have pre: "store3 = Save (Save (Save NewMemoryStore meta1) meta2) meta3 \<and>
      distinct [mChunkID meta1, mChunkID meta2, mChunkID meta3] \<and>
      mUserID meta1 = ''user1'' \<and> mUserID meta2 = ''user1'' \<and> mUserID meta3 \<noteq> ''user1''"
    using s d u by simp
  have b: "length (ListByUser store3 ?ks ''user1'') = 2"
    using S [OF pre] by (rule conjunct1)
  have c: "length (ListByUser store3 ?ks ''user2'') = 1"
    using S [OF pre, THEN conjunct2, THEN conjunct1] u(4) by simp
  have e: "ListByUser store3 ?ks ''user3'' = []"
    using S [OF pre, THEN conjunct2, THEN conjunct2, rule_format, of "''user3''"] u(5,6)
    by simp
  from r a b c e show ?thesis by simp
qed

section \<open>Lemmas about the transformation\<close>

text \<open>
  The table \<open>K256\<close> is the one of the standard: with \<open>r\<close> the integer part of the cube root
  of the prime \<open>p\<close>, the number \<open>2\<^sup>3\<^sup>2 r + k\<close> is the integer part of the cube root of
  \<open>2\<^sup>9\<^sup>6 p\<close>.
\<close>

lemma K256_cube_roots: "list_all2 cube_root_bits primes64 K256"
  unfolding primes64_def K256_def
  by (simp add: cube_root_bits_def)

lemma length_Sum256: "length (Sum256 d) = 32"
  by (simp add: Sum256_def be_bytes32_def split: prod.splits)

lemma length_Sprintf_x: "length (Sprintf_x bs) = 2 * length bs"
  by (induction bs) (simp_all add: Sprintf_x_def hex_byte_def)

lemma length_checksum: "length (Sprintf_x (Sum256 d)) = 64"
  by (simp add: length_Sprintf_x length_Sum256)

lemma transform_Inr:
  "transform r c =
     Inr \<lparr>mChunkID = ChunkID c, mUserID = UserID c, mSessionID = SessionID c,
          mTimestamp = Timestamp c, mChecksum = Sprintf_x (Sum256 (Data c)),
          mFFT = Sprintf_d (r mod 10000) @ ''Hz'', mTranscript = ''Hello World''\<rparr>"
  by (simp add: transform_def rand_Intn_def)

lemma hello_digest:
  "Sprintf_x (Sum256 hello) =
     ''2cf24dba5fb0a30e26e83b2ac5b9e29e1b161e5c1fa7425e73043362938b9824''"
  by code_simp

lemma empty_digest:
  "Sprintf_x (Sum256 []) =
     ''e3b0c44298fc1c149afbf4c8996fb92427ae41e4649b934ca495991b7852b855''"
  by code_simp

section \<open>Claims about the transformation\<close>

text \<open>
  C2. For every chunk (and every draw of the random source) the transformation yields a
  Metadata record in which chunk identifier, user identifier, session identifier and
  timestamp are those of the chunk; the checksum is the hex form of the SHA-256 digest
  of the payload (64 characters), and the FFT and transcript fields are not empty. When
  the payload is the five bytes of "hello", the checksum is
  2cf24dba5fb0a30e26e83b2ac5b9e29e1b161e5c1fa7425e73043362938b9824.
\<close>

theorem transform_fields:
  "\<exists>m. transform r c = Inr m \<and>
       mChunkID m = ChunkID c \<and> mUserID m = UserID c \<and>
       mSessionID m = SessionID c \<and> mTimestamp m = Timestamp c \<and>
       mChecksum m = Sprintf_x (Sum256 (Data c)) \<and> length (mChecksum m) = 64 \<and>
       mFFT m \<noteq> [] \<and> mTranscript m \<noteq> [] \<and>
       (Data c = hello \<longrightarrow>
          mChecksum m = ''2cf24dba5fb0a30e26e83b2ac5b9e29e1b161e5c1fa7425e73043362938b9824'')"
  by (simp add: transform_Inr length_checksum hello_digest)

theorem transform_fields_witness:
  "Data chunkA = hello \<and>
   (\<exists>m. transform 4242 chunkA = Inr m \<and> mUserID m = ''u1'' \<and>
        mChecksum m = ''2cf24dba5fb0a30e26e83b2ac5b9e29e1b161e5c1fa7425e73043362938b9824'')"
proof -
  have d: "Data chunkA = hello" and u: "UserID chunkA = ''u1''"
    by (simp_all add: chunkA_def)
  from transform_fields [of 4242 chunkA] obtain m where
    m: "transform 4242 chunkA = Inr m" "mUserID m = UserID chunkA"
      "Data chunkA = hello \<longrightarrow>
         mChecksum m = ''2cf24dba5fb0a30e26e83b2ac5b9e29e1b161e5c1fa7425e73043362938b9824''"
    by blast
  with d u show ?thesis by auto
qed

text \<open>
  C6. Two chunks with the same payload bytes get the same checksum, whatever their other
  fields and whatever the random draws of the two runs.
\<close>

theorem checksum_deterministic:
  assumes "Data c1 = Data c2"
  shows "\<exists>m1 m2. transform r1 c1 = Inr m1 \<and> transform r2 c2 = Inr m2 \<and>
                 mChecksum m1 = mChecksum m2"
  using assms by (simp add: transform_Inr)

theorem checksum_deterministic_witness:
  "Data chunkA = Data (chunkA\<lparr>ChunkID := ''c-2'', UserID := ''u2'', Timestamp := 5\<rparr>) \<and>
   (\<exists>m1 m2. transform 1 chunkA = Inr m1 \<and>
      transform 9999 (chunkA\<lparr>ChunkID := ''c-2'', UserID := ''u2'', Timestamp := 5\<rparr>) = Inr m2 \<and>
      mChecksum m1 = mChecksum m2)"
proof -
  have d: "Data chunkA = Data (chunkA\<lparr>ChunkID := ''c-2'', UserID := ''u2'', Timestamp := 5\<rparr>)"
    by simp
  from checksum_deterministic [OF d, of 1 9999] d show ?thesis by simp
qed

text \<open>
  C7. The transformation has a Metadata result for every chunk and every random draw: the
  panic branch is never taken. For the empty payload the checksum is the digest of the
  empty byte sequence,
  e3b0c44298fc1c149afbf4c8996fb92427ae41e4649b934ca495991b7852b855.
\<close>

theorem transform_never_fails:
  "(\<forall>e. transform r c \<noteq> Inl e) \<and>
   (\<exists>m. transform r c = Inr m \<and> length (mChecksum m) = 64 \<and>
        (Data c = [] \<longrightarrow>
           mChecksum m = Sprintf_x (Sum256 []) \<and>
           mChecksum m = ''e3b0c44298fc1c149afbf4c8996fb92427ae41e4649b934ca495991b7852b855''))"
  by (simp add: transform_Inr length_checksum empty_digest)

theorem transform_never_fails_witness:
  "Data (chunkA\<lparr>Data := []\<rparr>) = [] \<and>
   (\<exists>m. transform (-7) (chunkA\<lparr>Data := []\<rparr>) = Inr m \<and>
        mChecksum m = ''e3b0c44298fc1c149afbf4c8996fb92427ae41e4649b934ca495991b7852b855'')"
proof -
  have d: "Data (chunkA\<lparr>Data := []\<rparr>) = []" by simp
  from transform_never_fails [of "-7" "chunkA\<lparr>Data := []\<rparr>"] obtain m where
    "transform (-7) (chunkA\<lparr>Data := []\<rparr>) = Inr m"
    "Data (chunkA\<lparr>Data := []\<rparr>) = [] \<longrightarrow>
       mChecksum m = Sprintf_x (Sum256 []) \<and>
       mChecksum m = ''e3b0c44298fc1c149afbf4c8996fb92427ae41e4649b934ca495991b7852b855''"
    by blast
  with d show ?thesis by auto
qed

text \<open>
  C10. For every chunk, whatever its payload and other fields, the transcript of the
  produced Metadata is the constant "Hello World".
\<close>

theorem transcript_constant:
  "\<exists>m. transform r c = Inr m \<and> mTranscript m = ''Hello World''"
  by (simp add: transform_Inr)

section \<open>Lemmas about the pipeline\<close>

lemma invI:
  assumes "list_all2 answers (dequeued s) (sent s @ pending s)"
    and "distinct (taken s)"
    and "\<And>c. c \<in> set (taken s) \<Longrightarrow> c < next_chan s"
    and "\<And>i job. hs s i = HSend job \<Longrightarrow> Result job \<notin> set (taken s)"
    and "\<And>i c. chan_of (hs s i) = Some c \<Longrightarrow> c < next_chan s"
    and "\<And>i i' c. chan_of (hs s i) = Some c \<Longrightarrow> chan_of (hs s i') = Some c \<Longrightarrow> i = i'"
    and "\<And>job. job \<in> set (jobs s) \<Longrightarrow> \<exists>i. hs s i = HRecv job"
    and "\<And>job meta. worker s = WSend job meta \<Longrightarrow> \<exists>i. hs s i = HRecv job"
    and "\<And>job meta. worker s = WSend job meta \<Longrightarrow>
           Result job \<in> set (map (\<lambda>d. Result (fst d)) (dequeued s))"
    and "\<And>e. worker s \<noteq> WPanicked e"
  shows "inv s"
  unfolding inv_def using assms by blast

lemma invD:
  assumes "inv s"
  shows inv_answers: "list_all2 answers (dequeued s) (sent s @ pending s)"
    and inv_distinct: "distinct (taken s)"
    and inv_taken_lt: "\<And>c. c \<in> set (taken s) \<Longrightarrow> c < next_chan s"
    and inv_HSend_fresh: "\<And>i job. hs s i = HSend job \<Longrightarrow> Result job \<notin> set (taken s)"
    and inv_chan_lt: "\<And>i c. chan_of (hs s i) = Some c \<Longrightarrow> c < next_chan s"
    and inv_chan_inj: "\<And>i i' c. chan_of (hs s i) = Some c \<Longrightarrow> chan_of (hs s i') = Some c \<Longrightarrow> i = i'"
    and inv_queue_reader: "\<And>job. job \<in> set (jobs s) \<Longrightarrow> \<exists>i. hs s i = HRecv job"
    and inv_worker_reader: "\<And>job meta. worker s = WSend job meta \<Longrightarrow> \<exists>i. hs s i = HRecv job"
    and inv_worker_deq: "\<And>job meta. worker s = WSend job meta \<Longrightarrow>
           Result job \<in> set (map (\<lambda>d. Result (fst d)) (dequeued s))"
    and inv_no_panic: "\<And>e. worker s \<noteq> WPanicked e"
  using assms unfolding inv_def by blast+


lemma inv_init: "inv init"
  by (simp add: inv_def init_def pending_def taken_def chan_of_def)

lemma inv_Cancel: "inv s \<Longrightarrow> inv (s\<lparr>cancelled := True\<rparr>)"
  by (simp add: inv_def pending_def taken_def)

lemma inv_new_job:
  assumes I: "inv s" and st: "new_job s i chunk = Some s'"
  shows "inv s'"
proof -
  let ?j = "\<lparr>Chunk = chunk, Result = next_chan s\<rparr>"
  from st have idle: "hs s i = HIdle"
    and s': "s' = s\<lparr>hs := (hs s)(i := HSend ?j), next_chan := Suc (next_chan s)\<rparr>"
    by (auto simp: new_job_def split: hpc.splits)
  have eqs [simp]: "jobs s' = jobs s" "dequeued s' = dequeued s" "sent s' = sent s"
    "worker s' = worker s" "next_chan s' = Suc (next_chan s)"
    "hs s' = (hs s)(i := HSend ?j)"
    by (simp_all add: s')
  have eqs2 [simp]: "taken s' = taken s" "pending s' = pending s"
    by (simp_all add: taken_def pending_def)
  have other: "hs s' k = hs s k" if "k \<noteq> i" for k using that by simp
  have not_i: "k \<noteq> i" if "hs s k = HRecv job" for k job using that idle by auto
  show ?thesis
  proof (rule invI)
    show "list_all2 answers (dequeued s') (sent s' @ pending s')"
      using inv_answers [OF I] by simp
    show "distinct (taken s')" using inv_distinct [OF I] by simp
    show "c < next_chan s'" if "c \<in> set (taken s')" for c
      using inv_taken_lt [OF I, of c] that by simp
    show "Result job \<notin> set (taken s')" if h: "hs s' k = HSend job" for k job
    proof (cases "k = i")
      case True
      with h have "Result job = next_chan s" by auto
      with inv_taken_lt [OF I, of "next_chan s"] show ?thesis by auto
    next
      case False
      with h inv_HSend_fresh [OF I, of k job] show ?thesis by simp
    qed
    show "c < next_chan s'" if h: "chan_of (hs s' k) = Some c" for k c
    proof (cases "k = i")
      case True
      with h show ?thesis by (simp add: chan_of_def)
    next
      case False
      with h inv_chan_lt [OF I, of k c] show ?thesis by simp
    qed
    show "k = k'" if h: "chan_of (hs s' k) = Some c" "chan_of (hs s' k') = Some c" for k k' c
    proof (cases "k = i")
      case ki: True
      show ?thesis
      proof (cases "k' = i")
        case True with ki show ?thesis by simp
      next
        case False
        from ki h(1) have "c = next_chan s" by (simp add: chan_of_def)
        moreover from False h(2) inv_chan_lt [OF I, of k' c] have "c < next_chan s" by simp
        ultimately show ?thesis by simp
      qed
    next
      case nki: False
      show ?thesis
      proof (cases "k' = i")
        case True
        with h(2) have "c = next_chan s" by (simp add: chan_of_def)
        moreover from nki h(1) inv_chan_lt [OF I, of k c] have "c < next_chan s" by simp
        ultimately show ?thesis by simp
      next
        case False
        with nki h inv_chan_inj [OF I, of k c k'] show ?thesis by simp
      qed
    qed
    show "\<exists>k. hs s' k = HRecv job" if "job \<in> set (jobs s')" for job
    proof -
      from that inv_queue_reader [OF I, of job] obtain k where k: "hs s k = HRecv job" by auto
      with not_i [OF k] have "hs s' k = HRecv job" by simp
      then show ?thesis ..
    qed
    show "\<exists>k. hs s' k = HRecv job" if "worker s' = WSend job meta" for job meta
    proof -
      from that inv_worker_reader [OF I, of job meta] obtain k where k: "hs s k = HRecv job"
        by auto
      with not_i [OF k] have "hs s' k = HRecv job" by simp
      then show ?thesis ..
    qed
    show "Result job \<in> set (map (\<lambda>d. Result (fst d)) (dequeued s'))"
      if "worker s' = WSend job meta" for job meta
      using that inv_worker_deq [OF I, of job meta] by simp
    show "worker s' \<noteq> WPanicked e" for e using inv_no_panic [OF I, of e] by simp
  qed
qed


lemma inv_Submit:
  assumes I: "inv s" and st: "step cap s (Submit i) = Some s'"
  shows "inv s'"
proof -
  from st obtain job where at: "hs s i = HSend job"
    and s': "s' = s\<lparr>jobs := jobs s @ [job], hs := (hs s)(i := HRecv job)\<rparr>"
    by (auto simp: chan_send_def split: hpc.splits if_splits)
  have eqs [simp]: "jobs s' = jobs s @ [job]" "dequeued s' = dequeued s" "sent s' = sent s"
    "worker s' = worker s" "next_chan s' = next_chan s" "hs s' = (hs s)(i := HRecv job)"
    by (simp_all add: s')
  have pend [simp]: "pending s' = pending s" by (simp add: pending_def)
  have set_taken: "set (taken s') = insert (Result job) (set (taken s))"
    by (auto simp: taken_def)
  have fresh: "Result job \<notin> set (taken s)" by (rule inv_HSend_fresh [OF I at])
  have chan_i: "chan_of (hs s i) = Some (Result job)" using at by (simp add: chan_of_def)
  have chans: "chan_of (hs s' k) = chan_of (hs s k)" for k
    using at by (simp add: chan_of_def)
  have not_i: "k \<noteq> i" if "hs s k = HRecv j" for k j using that at by auto
  show ?thesis
  proof (rule invI)
    show "list_all2 answers (dequeued s') (sent s' @ pending s')"
      using inv_answers [OF I] by simp
    show "distinct (taken s')"
      using inv_distinct [OF I] fresh by (auto simp: taken_def)
    show "c < next_chan s'" if "c \<in> set (taken s')" for c
      using that set_taken inv_taken_lt [OF I, of c] inv_chan_lt [OF I chan_i] by auto
    show "Result j \<notin> set (taken s')" if h: "hs s' k = HSend j" for k j
    proof -
      from h have ki: "k \<noteq> i" by auto
      with h have old: "hs s k = HSend j" by simp
      then have "chan_of (hs s k) = Some (Result j)" by (simp add: chan_of_def)
      with inv_chan_inj [OF I, of k "Result j" i] chan_i ki
      have "Result j \<noteq> Result job" by auto
      with inv_HSend_fresh [OF I old] set_taken show ?thesis by simp
    qed
    show "c < next_chan s'" if "chan_of (hs s' k) = Some c" for k c
      using that [unfolded chans] inv_chan_lt [OF I, of k c] by simp
    show "k = k'" if "chan_of (hs s' k) = Some c" "chan_of (hs s' k') = Some c" for k k' c
      using that [unfolded chans] inv_chan_inj [OF I, of k c k'] by simp
    show "\<exists>k. hs s' k = HRecv j" if h: "j \<in> set (jobs s')" for j
    proof (cases "j = job")
      case True
      then have "hs s' i = HRecv j" by simp
      then show ?thesis ..
    next
      case False
      with h have "j \<in> set (jobs s)" by simp
      with inv_queue_reader [OF I, of j] obtain k where k: "hs s k = HRecv j" by auto
      with not_i [OF k] have "hs s' k = HRecv j" by simp
      then show ?thesis ..
    qed
    show "\<exists>k. hs s' k = HRecv j" if "worker s' = WSend j meta" for j meta
    proof -
      from that inv_worker_reader [OF I, of j meta] obtain k where k: "hs s k = HRecv j"
        by auto
      with not_i [OF k] have "hs s' k = HRecv j" by simp
      then show ?thesis ..
    qed
    show "Result j \<in> set (map (\<lambda>d. Result (fst d)) (dequeued s'))"
      if "worker s' = WSend j meta" for j meta
      using that inv_worker_deq [OF I, of j meta] by simp
    show "worker s' \<noteq> WPanicked e" for e using inv_no_panic [OF I, of e] by simp
  qed
qed

lemma inv_Dequeue:
  assumes I: "inv s" and st: "step cap s (Dequeue r) = Some s'"
  shows "inv s'"
proof -
  from st obtain job rest meta where w: "worker s = WSelect" and q: "jobs s = job # rest"
    and tr: "transform r (Chunk job) = Inr meta"
    and s': "s' = s\<lparr>jobs := rest, worker := WSend job meta,
                    dequeued := dequeued s @ [(job, r)]\<rparr>"
    by (auto simp: transform_Inr split: wpc.splits list.splits)
  have eqs [simp]: "jobs s' = rest" "dequeued s' = dequeued s @ [(job, r)]" "sent s' = sent s"
    "worker s' = WSend job meta" "next_chan s' = next_chan s" "hs s' = hs s"
    by (simp_all add: s')
  have pend: "pending s = []" "pending s' = [(Result job, meta)]"
    using w by (simp_all add: pending_def)
  have set_taken: "set (taken s') = set (taken s)"
    using q by (auto simp: taken_def)
  have in_q: "job \<in> set (jobs s)" using q by simp
  show ?thesis
  proof (rule invI)
    have "answers (job, r) (Result job, meta)" using tr by (simp add: answers_def)
    with inv_answers [OF I] pend
    show "list_all2 answers (dequeued s') (sent s' @ pending s')"
      by (simp add: list_all2_appendI)
    show "distinct (taken s')"
      using inv_distinct [OF I] q by (auto simp: taken_def)
    show "c < next_chan s'" if "c \<in> set (taken s')" for c
      using that set_taken inv_taken_lt [OF I, of c] by simp
    show "Result j \<notin> set (taken s')" if "hs s' k = HSend j" for k j
      using that set_taken inv_HSend_fresh [OF I, of k j] by simp
    show "c < next_chan s'" if "chan_of (hs s' k) = Some c" for k c
      using that inv_chan_lt [OF I, of k c] by simp
    show "k = k'" if "chan_of (hs s' k) = Some c" "chan_of (hs s' k') = Some c" for k k' c
      using that inv_chan_inj [OF I, of k c k'] by simp
    show "\<exists>k. hs s' k = HRecv j" if "j \<in> set (jobs s')" for j
      using that q inv_queue_reader [OF I, of j] by simp
    show "\<exists>k. hs s' k = HRecv j" if "worker s' = WSend j m" for j m
      using that inv_queue_reader [OF I in_q] by simp
    show "Result j \<in> set (map (\<lambda>d. Result (fst d)) (dequeued s'))"
      if "worker s' = WSend j m" for j m
      using that by simp
    show "worker s' \<noteq> WPanicked e" for e by simp
  qed
qed

lemma inv_Exit:
  assumes I: "inv s" and st: "step cap s Exit = Some s'"
  shows "inv s'"
proof -
  from st have w: "worker s = WSelect" and s': "s' = s\<lparr>worker := WReturned\<rparr>"
    by (auto split: wpc.splits if_splits)
  have "pending s = []" "pending s' = []" "taken s' = taken s"
    using w by (simp_all add: pending_def taken_def s')
  with I show ?thesis by (simp add: inv_def s')
qed

lemma inv_Deliver:
  assumes I: "inv s" and st: "step cap s (Deliver i) = Some s'"
  shows "inv s'"
proof -
  from st obtain job meta job' where w: "worker s = WSend job meta"
    and at: "hs s i = HRecv job'" and same: "Result job = Result job'"
    and s': "s' = s\<lparr>worker := WSelect, hs := (hs s)(i := HGot meta),
                    sent := sent s @ [(Result job, meta)]\<rparr>"
    by (auto split: wpc.splits hpc.splits if_splits)
  have eqs [simp]: "jobs s' = jobs s" "dequeued s' = dequeued s"
    "sent s' = sent s @ [(Result job, meta)]"
    "worker s' = WSelect" "next_chan s' = next_chan s" "hs s' = (hs s)(i := HGot meta)"
    by (simp_all add: s')
  have pend: "pending s = [(Result job, meta)]" "pending s' = []"
    using w by (simp_all add: pending_def)
  have tk [simp]: "taken s' = taken s" by (simp add: taken_def)
  have not_in_queue: "job' \<notin> set (jobs s)"
  proof
    assume "job' \<in> set (jobs s)"
    then have "Result job \<in> set (map Result (jobs s))" using same by auto
    moreover have "Result job \<in> set (map (\<lambda>d. Result (fst d)) (dequeued s))"
      by (rule inv_worker_deq [OF I w])
    ultimately show False using inv_distinct [OF I] by (auto simp: taken_def)
  qed
  show ?thesis
  proof (rule invI)
    show "list_all2 answers (dequeued s') (sent s' @ pending s')"
      using inv_answers [OF I] pend by simp
    show "distinct (taken s')" using inv_distinct [OF I] by simp
    show "c < next_chan s'" if "c \<in> set (taken s')" for c
      using that inv_taken_lt [OF I, of c] by simp
    show "Result j \<notin> set (taken s')" if h: "hs s' k = HSend j" for k j
    proof -
      from h have "k \<noteq> i" by auto
      with h inv_HSend_fresh [OF I, of k j] show ?thesis by simp
    qed
    show "c < next_chan s'" if h: "chan_of (hs s' k) = Some c" for k c
    proof -
      from h have "k \<noteq> i" by (auto simp: chan_of_def)
      with h inv_chan_lt [OF I, of k c] show ?thesis by simp
    qed
    show "k = k'" if h: "chan_of (hs s' k) = Some c" "chan_of (hs s' k') = Some c" for k k' c
    proof -
      from h have "k \<noteq> i" "k' \<noteq> i" by (auto simp: chan_of_def)
      with h inv_chan_inj [OF I, of k c k'] show ?thesis by simp
    qed
    show "\<exists>k. hs s' k = HRecv j" if h: "j \<in> set (jobs s')" for j
    proof -
      from h inv_queue_reader [OF I, of j] obtain k where k: "hs s k = HRecv j" by auto
      have "k \<noteq> i"
      proof
        assume "k = i"
        with k at have "j = job'" by simp
        with h not_in_queue show False by simp
      qed
      with k have "hs s' k = HRecv j" by simp
      then show ?thesis ..
    qed
    show "\<exists>k. hs s' k = HRecv j" if "worker s' = WSend j m" for j m
      using that by simp
    show "Result j \<in> set (map (\<lambda>d. Result (fst d)) (dequeued s'))"
      if "worker s' = WSend j m" for j m
      using that by simp
    show "worker s' \<noteq> WPanicked e" for e by simp
  qed
qed

lemma inv_Respond:
  assumes I: "inv s" and st: "step cap s (Respond i) = Some s'"
  shows "inv s'"
proof -
  from st obtain meta where at: "hs s i = HGot meta"
    and s': "s' = s\<lparr>store := Save (store s) meta, hs := (hs s)(i := HIdle)\<rparr>"
    by (auto split: hpc.splits)
  have eqs [simp]: "jobs s' = jobs s" "dequeued s' = dequeued s" "sent s' = sent s"
    "worker s' = worker s" "next_chan s' = next_chan s" "hs s' = (hs s)(i := HIdle)"
    by (simp_all add: s')
  have tk [simp]: "taken s' = taken s" "pending s' = pending s"
    by (simp_all add: taken_def pending_def)
  have chans: "chan_of (hs s' k) = chan_of (hs s k)" for k
    using at by (simp add: chan_of_def)
  have not_i: "k \<noteq> i" if "hs s k = HRecv j" for k j using that at by auto
  show ?thesis
  proof (rule invI)
    show "list_all2 answers (dequeued s') (sent s' @ pending s')"
      using inv_answers [OF I] by simp
    show "distinct (taken s')" using inv_distinct [OF I] by simp
    show "c < next_chan s'" if "c \<in> set (taken s')" for c
      using that inv_taken_lt [OF I, of c] by simp
    show "Result j \<notin> set (taken s')" if h: "hs s' k = HSend j" for k j
    proof -
      from h have "k \<noteq> i" by auto
      with h inv_HSend_fresh [OF I, of k j] show ?thesis by simp
    qed
    show "c < next_chan s'" if "chan_of (hs s' k) = Some c" for k c
      using that [unfolded chans] inv_chan_lt [OF I, of k c] by simp
    show "k = k'" if "chan_of (hs s' k) = Some c" "chan_of (hs s' k') = Some c" for k k' c
      using that [unfolded chans] inv_chan_inj [OF I, of k c k'] by simp
    show "\<exists>k. hs s' k = HRecv j" if "j \<in> set (jobs s')" for j
    proof -
      from that inv_queue_reader [OF I, of j] obtain k where k: "hs s k = HRecv j" by auto
      with not_i [OF k] have "hs s' k = HRecv j" by simp
      then show ?thesis ..
    qed
    show "\<exists>k. hs s' k = HRecv j" if "worker s' = WSend j m" for j m
    proof -
      from that inv_worker_reader [OF I, of j m] obtain k where k: "hs s k = HRecv j" by auto
      with not_i [OF k] have "hs s' k = HRecv j" by simp
      then show ?thesis ..
    qed
    show "Result j \<in> set (map (\<lambda>d. Result (fst d)) (dequeued s'))"
      if "worker s' = WSend j m" for j m
      using that inv_worker_deq [OF I, of j m] by simp
    show "worker s' \<noteq> WPanicked e" for e using inv_no_panic [OF I, of e] by simp
  qed
qed

lemma inv_step:
  assumes "inv s" and "step cap s a = Some s'"
  shows "inv s'"
proof (cases a)
  case Cancel
  with assms inv_Cancel [of s] show ?thesis by auto
next
  case (Upload i q uuid now data)
  with assms inv_new_job [of s i "upload_chunk q uuid now data" s'] show ?thesis by simp
next
  case (WsMessage i q uuid now msg)
  with assms inv_new_job [of s i "ws_chunk q uuid now msg" s'] show ?thesis by simp
next
  case (Submit i)
  with assms inv_Submit show ?thesis by blast
next
  case (Dequeue r)
  with assms inv_Dequeue show ?thesis by blast
next
  case Exit
  with assms inv_Exit show ?thesis by blast
next
  case (Deliver i)
  with assms inv_Deliver show ?thesis by blast
next
  case (Respond i)
  with assms inv_Respond show ?thesis by blast
qed

lemma inv_run: "inv s \<Longrightarrow> run cap s acts = Some s' \<Longrightarrow> inv s'"
proof (induction acts arbitrary: s)
  case Nil
  then show ?case by simp
next
  case (Cons a acts)
  from Cons.prems(2) obtain t where t: "step cap s a = Some t" and r: "run cap t acts = Some s'"
    by (auto split: option.splits)
  from inv_step [OF Cons.prems(1) t] r show ?case by (rule Cons.IH)
qed


lemma answers_channels:
  "list_all2 answers ds ws \<Longrightarrow> map fst ws = map (\<lambda>d. Result (fst d)) ds"
  by (induction rule: list_all2_induct) (simp_all add: answers_def)

lemma count_distinct:
  "distinct xs \<Longrightarrow> length (filter (\<lambda>x. x = c) xs) = (if c \<in> set xs then 1 else 0)"
  by (induction xs) auto

lemma writes_on_count:
  "writes_on s c = length (filter (\<lambda>x. x = c) (map fst (sent s @ pending s)))"
  unfolding writes_on_def by (simp only: filter_map length_map comp_def)

lemma inv_writes_on:
  assumes I: "inv s"
  shows "writes_on s c = (if c \<in> set (map (\<lambda>d. Result (fst d)) (dequeued s)) then 1 else 0)"
proof -
  have ch: "map fst (sent s @ pending s) = map (\<lambda>d. Result (fst d)) (dequeued s)"
    by (rule answers_channels [OF inv_answers [OF I]])
  have "distinct (map (\<lambda>d. Result (fst d)) (dequeued s))"
    using inv_distinct [OF I] by (simp add: taken_def)
  from count_distinct [OF this, of c] show ?thesis
    by (simp only: writes_on_count ch)
qed

lemma worker_send_stable:
  assumes w: "worker s = WSend job meta" and st: "step cap s a = Some s'"
    and a: "\<forall>k. a \<noteq> Deliver k"
  shows "worker s' = WSend job meta"
proof (cases a)
  case Cancel
  with st w show ?thesis by auto
next
  case (Upload k q uuid now data)
  with st w show ?thesis by (auto simp: new_job_def split: hpc.splits)
next
  case (WsMessage k q uuid now msg)
  with st w show ?thesis by (auto simp: new_job_def split: hpc.splits)
next
  case (Submit k)
  with st w show ?thesis by (auto simp: chan_send_def split: hpc.splits if_splits)
next
  case (Dequeue r)
  with st w show ?thesis by simp
next
  case Exit
  with st w show ?thesis by simp
next
  case (Deliver k)
  with a show ?thesis by simp
next
  case (Respond k)
  with st w show ?thesis by (auto split: hpc.splits)
qed

lemma inv_single_reader:
  assumes I: "inv s" and w: "worker s = WSend job meta"
  shows "\<exists>i. hs s i = HRecv job \<and>
             step cap s (Deliver i) =
               Some (s\<lparr>worker := WSelect, hs := (hs s)(i := HGot meta),
                       sent := sent s @ [(Result job, meta)]\<rparr>) \<and>
             (\<forall>k. step cap s (Deliver k) \<noteq> None \<longrightarrow> k = i)"
proof -
  from inv_worker_reader [OF I w] obtain i where i: "hs s i = HRecv job" by auto
  have en: "step cap s (Deliver i) =
               Some (s\<lparr>worker := WSelect, hs := (hs s)(i := HGot meta),
                       sent := sent s @ [(Result job, meta)]\<rparr>)" using w i by simp
  have "k = i" if k: "step cap s (Deliver k) \<noteq> None" for k
  proof -
    from k w obtain job' where j': "hs s k = HRecv job'" "Result job = Result job'"
      by (auto split: hpc.splits if_splits)
    then have "chan_of (hs s k) = Some (Result job)" by (simp add: chan_of_def)
    moreover have "chan_of (hs s i) = Some (Result job)" using i by (simp add: chan_of_def)
    ultimately show ?thesis by (rule inv_chan_inj [OF I])
  qed
  with i en show ?thesis by blast
qed

section \<open>Claims about the pipeline\<close>

text \<open>
  C3. In every state the system can reach from its start, whatever the interleaving and
  whether or not the context has been cancelled: the values written to result channels
  (those already received and the one the worker is sending at line 95) answer the
  dequeued jobs one to one and in order, each on the job's own channel and carrying the
  metadata of the job's chunk; the dequeued jobs have pairwise different channels; so
  every dequeued job has exactly one write on its channel and no other channel has any.
  The single worker is the only writer. While the worker is sending, exactly one handler
  is receiving on that channel (a single reader), the delivery to it can happen at once
  and completes the write, and no other step takes the worker away from its send. The
  worker never panics.
\<close>

theorem one_result_per_dequeued_job:
  assumes "run cap init acts = Some s"
  shows "list_all2 answers (dequeued s) (sent s @ pending s) \<and>
         distinct (map (\<lambda>d. Result (fst d)) (dequeued s)) \<and>
         (\<forall>d \<in> set (dequeued s). writes_on s (Result (fst d)) = 1) \<and>
         (\<forall>c. c \<notin> set (map (\<lambda>d. Result (fst d)) (dequeued s)) \<longrightarrow> writes_on s c = 0) \<and>
         (\<forall>job meta. worker s = WSend job meta \<longrightarrow>
            (\<exists>i. hs s i = HRecv job \<and>
                 step cap s (Deliver i) =
                   Some (s\<lparr>worker := WSelect, hs := (hs s)(i := HGot meta),
                           sent := sent s @ [(Result job, meta)]\<rparr>) \<and>
                 (\<forall>k. step cap s (Deliver k) \<noteq> None \<longrightarrow> k = i)) \<and>
            (\<forall>a s'. step cap s a = Some s' \<and> (\<forall>k. a \<noteq> Deliver k) \<longrightarrow>
                 worker s' = WSend job meta)) \<and>
         (\<forall>e. worker s \<noteq> WPanicked e)"
proof -
  have I: "inv s" by (rule inv_run [OF inv_init assms])
  have 1: "list_all2 answers (dequeued s) (sent s @ pending s)" by (rule inv_answers [OF I])
  have 2: "distinct (map (\<lambda>d. Result (fst d)) (dequeued s))"
    using inv_distinct [OF I] by (simp add: taken_def)
  have 3: "\<forall>d \<in> set (dequeued s). writes_on s (Result (fst d)) = 1"
    by (simp add: inv_writes_on [OF I])
  have 4: "\<forall>c. c \<notin> set (map (\<lambda>d. Result (fst d)) (dequeued s)) \<longrightarrow> writes_on s c = 0"
    by (simp add: inv_writes_on [OF I])
  have 5: "\<forall>job meta. worker s = WSend job meta \<longrightarrow>
            (\<exists>i. hs s i = HRecv job \<and>
                 step cap s (Deliver i) =
                   Some (s\<lparr>worker := WSelect, hs := (hs s)(i := HGot meta),
                           sent := sent s @ [(Result job, meta)]\<rparr>) \<and>
                 (\<forall>k. step cap s (Deliver k) \<noteq> None \<longrightarrow> k = i)) \<and>
            (\<forall>a s'. step cap s a = Some s' \<and> (\<forall>k. a \<noteq> Deliver k) \<longrightarrow>
                 worker s' = WSend job meta)"
  proof (intro allI impI conjI)
    fix job meta
    assume w: "worker s = WSend job meta"
    show "\<exists>i. hs s i = HRecv job \<and>
                 step cap s (Deliver i) =
                   Some (s\<lparr>worker := WSelect, hs := (hs s)(i := HGot meta),
                           sent := sent s @ [(Result job, meta)]\<rparr>) \<and>
                 (\<forall>k. step cap s (Deliver k) \<noteq> None \<longrightarrow> k = i)"
      by (rule inv_single_reader [OF I w])
    fix a s'
    assume "step cap s a = Some s' \<and> (\<forall>k. a \<noteq> Deliver k)"
    then show "worker s' = WSend job meta"
      using worker_send_stable [OF w, of cap a s'] by simp
  qed
  have 6: "\<forall>e. worker s \<noteq> WPanicked e" using inv_no_panic [OF I] by blast
  from 1 2 3 4 5 6 show ?thesis by (intro conjI)
qed


theorem one_result_per_dequeued_job_witness:
  "\<exists>s job meta.
     run 100 init [Upload 0 [(''user_id'', ''u1'')] ''id-1'' 11 hello, Submit 0, Dequeue 7] = Some s \<and>
     worker s = WSend job meta \<and> dequeued s = [(job, 7)] \<and> Result job = 0 \<and>
     sent s = [] \<and> pending s = [(0, meta)] \<and> transform 7 (Chunk job) = Inr meta \<and>
     writes_on s 0 = 1 \<and> 5 \<notin> set (map (\<lambda>d. Result (fst d)) (dequeued s)) \<and> writes_on s 5 = 0 \<and>
     hs s 0 = HRecv job \<and> step 100 s (Deliver 0) \<noteq> None \<and>
     step 100 s Cancel = Some (s\<lparr>cancelled := True\<rparr>) \<and>
     worker (s\<lparr>cancelled := True\<rparr>) = WSend job meta"
proof -
  let ?acts = "[Upload 0 [(''user_id'', ''u1'')] ''id-1'' 11 hello, Submit 0, Dequeue 7]"
  let ?job = "\<lparr>Chunk = upload_chunk [(''user_id'', ''u1'')] ''id-1'' 11 hello, Result = 0\<rparr>"
  obtain meta where tr: "transform 7 (Chunk ?job) = Inr meta"
    by (simp add: transform_Inr)
  let ?s = "init\<lparr>worker := WSend ?job meta, hs := (\<lambda>i. HIdle)(0 := HRecv ?job),
                 next_chan := 1, dequeued := [(?job, 7)]\<rparr>"
  have r: "run 100 init ?acts = Some ?s"
    using tr by (simp add: init_def new_job_def chan_send_def)
  note T = one_result_per_dequeued_job [OF r]
  have w: "worker ?s = WSend ?job meta" and d: "dequeued ?s = [(?job, 7)]"
    and h: "hs ?s 0 = HRecv ?job" and p: "pending ?s = [(0, meta)]"
    and se: "sent ?s = []"
    by (simp_all add: pending_def init_def)
  from T have a: "\<forall>d \<in> set (dequeued ?s). writes_on ?s (Result (fst d)) = 1" by blast
  from T have b: "\<forall>c. c \<notin> set (map (\<lambda>d. Result (fst d)) (dequeued ?s)) \<longrightarrow> writes_on ?s c = 0"
    by blast
  from T have c: "\<forall>job meta. worker ?s = WSend job meta \<longrightarrow>
            (\<exists>i. hs ?s i = HRecv job \<and>
                 step 100 ?s (Deliver i) =
                   Some (?s\<lparr>worker := WSelect, hs := (hs ?s)(i := HGot meta),
                           sent := sent ?s @ [(Result job, meta)]\<rparr>) \<and>
                 (\<forall>k. step 100 ?s (Deliver k) \<noteq> None \<longrightarrow> k = i)) \<and>
            (\<forall>a s'. step 100 ?s a = Some s' \<and> (\<forall>k. a \<noteq> Deliver k) \<longrightarrow>
                 worker s' = WSend job meta)"
    by (elim conjE)
  have w0: "writes_on ?s 0 = 1" using a d by simp
  have n5: "5 \<notin> set (map (\<lambda>d. Result (fst d)) (dequeued ?s))" using d by simp
  have w5: "writes_on ?s 5 = 0" using b n5 by blast
  from c w have "\<exists>i. hs ?s i = HRecv ?job \<and>
                 step 100 ?s (Deliver i) =
                   Some (?s\<lparr>worker := WSelect, hs := (hs ?s)(i := HGot meta),
                           sent := sent ?s @ [(Result ?job, meta)]\<rparr>) \<and>
                 (\<forall>k. step 100 ?s (Deliver k) \<noteq> None \<longrightarrow> k = i)"
    by blast
  then obtain i where i: "hs ?s i = HRecv ?job" "step 100 ?s (Deliver i) \<noteq> None"
    by auto
  from c w have stable: "\<forall>a s'. step 100 ?s a = Some s' \<and> (\<forall>k. a \<noteq> Deliver k) \<longrightarrow>
                 worker s' = WSend ?job meta"
    by blast
  have "step 100 ?s Cancel = Some (?s\<lparr>cancelled := True\<rparr>) \<and> (\<forall>k. Cancel \<noteq> Deliver k)"
    by simp
  with stable have after_cancel: "worker (?s\<lparr>cancelled := True\<rparr>) = WSend ?job meta"
    by blast
  from i have "i = 0" by (cases "i = 0") (simp_all add: init_def)
  with i have en: "step 100 ?s (Deliver 0) \<noteq> None" by simp
  from r w d se p tr w0 n5 w5 h en after_cancel show ?thesis
    by (intro exI [of _ ?s] exI [of _ ?job] exI [of _ meta]) simp
qed

section \<open>Lemmas about a blocked submitter\<close>

lemma blocked_iff:
  "blocked_on_submit cap s i \<longleftrightarrow> (\<exists>job. hs s i = HSend job) \<and> \<not> length (jobs s) < cap"
  by (auto simp: blocked_on_submit_def chan_send_def split: hpc.splits)

lemma blocked_step:
  assumes w: "worker s = WReturned" and b: "blocked_on_submit cap s i"
    and st: "step cap s a = Some s'"
  shows "worker s' = WReturned \<and> blocked_on_submit cap s' i"
proof -
  from b obtain job where at: "hs s i = HSend job" and full: "\<not> length (jobs s) < cap"
    by (auto simp: blocked_iff)
  show ?thesis
  proof (cases a)
    case Cancel
    with st w at full show ?thesis by (auto simp: blocked_iff)
  next
    case (Upload k q uuid now data)
    with st w at full show ?thesis
      by (auto simp: blocked_iff new_job_def split: hpc.splits if_splits)
  next
    case (WsMessage k q uuid now msg)
    with st w at full show ?thesis
      by (auto simp: blocked_iff new_job_def split: hpc.splits if_splits)
  next
    case (Submit k)
    with st full show ?thesis by (auto simp: chan_send_def split: hpc.splits)
  next
    case (Dequeue r)
    with st w show ?thesis by simp
  next
    case Exit
    with st w show ?thesis by simp
  next
    case (Deliver k)
    with st w show ?thesis by simp
  next
    case (Respond k)
    with st w at full show ?thesis
      by (auto simp: blocked_iff split: hpc.splits if_splits)
  qed
qed

lemma blocked_run:
  "worker s = WReturned \<Longrightarrow> blocked_on_submit cap s i \<Longrightarrow> run cap s acts = Some s' \<Longrightarrow>
   worker s' = WReturned \<and> blocked_on_submit cap s' i"
proof (induction acts arbitrary: s)
  case Nil
  then show ?case by simp
next
  case (Cons a acts)
  from Cons.prems(3) obtain t where t: "step cap s a = Some t" and r: "run cap t acts = Some s'"
    by (auto split: option.splits)
  from blocked_step [OF Cons.prems(1,2) t]
  have "worker t = WReturned" "blocked_on_submit cap t i" by simp_all
  from this r show ?case by (rule Cons.IH)
qed

text \<open>
  C1, as stated, fails: after \<open>Cancel\<close> a WebSocket message arrives and the handler's send
  on \<open>jobs\<close> goes through. The job is in the queue and the handler has moved on to wait
  for its result; no error is returned.
\<close>

theorem submit_after_cancel_counterexample:
  "run 100 init [Cancel, WsMessage 0 [(''user_id'', ''mallory'')] ''id-0'' 10 hello] = Some cancelled0 \<and>
   cancelled cancelled0 \<and> hs cancelled0 0 = HSend job0 \<and>
   step 100 cancelled0 (Submit 0) =
     Some (cancelled0\<lparr>jobs := [job0], hs := (hs cancelled0)(0 := HRecv job0)\<rparr>)"
  by (simp add: init_def cancelled0_def job0_def new_job_def chan_send_def)

text \<open>
  C1, amended. The handlers' send on \<open>jobs\<close> does not look at the context: a submission
  does exactly the same with and without cancellation. After cancellation a submission
  is enqueued whenever the queue has room, and the submitter goes on to wait for its
  result. A submitter blocked on a full queue is still blocked after the cancellation,
  and once the worker has returned it stays blocked in every later state. No Shutdown
  error exists; the caller must not assume that the job will ever be processed.
\<close>

theorem submit_ignores_cancellation:
  "step cap (s\<lparr>cancelled := True\<rparr>) (Submit i) =
     map_option (\<lambda>s'. s'\<lparr>cancelled := True\<rparr>) (step cap s (Submit i)) \<and>
   (\<forall>job. cancelled s \<and> hs s i = HSend job \<and> length (jobs s) < cap \<longrightarrow>
      step cap s (Submit i) = Some (s\<lparr>jobs := jobs s @ [job], hs := (hs s)(i := HRecv job)\<rparr>)) \<and>
   (blocked_on_submit cap s i \<longrightarrow>
      (\<exists>s'. step cap s Cancel = Some s' \<and> cancelled s' \<and> blocked_on_submit cap s' i)) \<and>
   (\<forall>acts s'. blocked_on_submit cap s i \<and> worker s = WReturned \<and> run cap s acts = Some s' \<longrightarrow>
      blocked_on_submit cap s' i)"
proof (intro conjI allI impI)
  show "step cap (s\<lparr>cancelled := True\<rparr>) (Submit i) =
     map_option (\<lambda>s'. s'\<lparr>cancelled := True\<rparr>) (step cap s (Submit i))"
    by (simp add: chan_send_def split: hpc.splits)
next
  fix job
  assume "cancelled s \<and> hs s i = HSend job \<and> length (jobs s) < cap"
  then show "step cap s (Submit i) =
      Some (s\<lparr>jobs := jobs s @ [job], hs := (hs s)(i := HRecv job)\<rparr>)"
    by (simp add: chan_send_def)
next
  assume "blocked_on_submit cap s i"
  then show "\<exists>s'. step cap s Cancel = Some s' \<and> cancelled s' \<and> blocked_on_submit cap s' i"
    by (simp add: blocked_iff)
next
  fix acts s'
  assume "blocked_on_submit cap s i \<and> worker s = WReturned \<and> run cap s acts = Some s'"
  then show "blocked_on_submit cap s' i"
    using blocked_run [of s cap i acts s'] by simp
qed

theorem submit_ignores_cancellation_witness:
  "cancelled cancelled0 \<and> hs cancelled0 0 = HSend job0 \<and> length (jobs cancelled0) < 100 \<and>
   step 100 cancelled0 (Submit 0) =
     Some (cancelled0\<lparr>jobs := [job0], hs := (hs cancelled0)(0 := HRecv job0)\<rparr>) \<and>
   run 1 init [WsMessage 0 [(''user_id'', ''mallory'')] ''id-0'' 10 hello, Submit 0,
               Upload 1 [(''user_id'', ''u1'')] ''id-1'' 11 hello, Cancel, Exit] = Some stuck1 \<and>
   blocked_on_submit 1 stuck1 1 \<and> worker stuck1 = WReturned \<and>
   (\<exists>s'. step 1 stuck1 Cancel = Some s' \<and> cancelled s' \<and> blocked_on_submit 1 s' 1) \<and>
   run 1 stuck1 [Cancel, WsMessage 2 [] ''id-2'' 12 hello, Submit 1] = None \<and>
   (\<exists>s'. run 1 stuck1 [Cancel, WsMessage 2 [] ''id-2'' 12 hello] = Some s' \<and>
         blocked_on_submit 1 s' 1)"
proof -
  note T0 = submit_ignores_cancellation [of 100 cancelled0 0]
  note T1 = submit_ignores_cancellation [of 1 stuck1 1]
  have c: "cancelled cancelled0 \<and> hs cancelled0 0 = HSend job0 \<and> length (jobs cancelled0) < 100"
    by (simp add: cancelled0_def init_def)
  from T0 c have a: "step 100 cancelled0 (Submit 0) =
     Some (cancelled0\<lparr>jobs := jobs cancelled0 @ [job0], hs := (hs cancelled0)(0 := HRecv job0)\<rparr>)"
    by blast
  have j0: "jobs cancelled0 = []" by (simp add: cancelled0_def init_def)
  have reach: "run 1 init [WsMessage 0 [(''user_id'', ''mallory'')] ''id-0'' 10 hello, Submit 0,
               Upload 1 [(''user_id'', ''u1'')] ''id-1'' 11 hello, Cancel, Exit] = Some stuck1"
    by (simp add: init_def stuck1_def job0_def job1_def new_job_def chan_send_def)
  have b: "blocked_on_submit 1 stuck1 1" and w: "worker stuck1 = WReturned"
    by (simp_all add: blocked_iff stuck1_def init_def)
  from T1 b have e: "\<exists>s'. step 1 stuck1 Cancel = Some s' \<and> cancelled s' \<and> blocked_on_submit 1 s' 1"
    by blast
  have r2: "\<exists>s'. run 1 stuck1 [Cancel, WsMessage 2 [] ''id-2'' 12 hello] = Some s'"
    by (simp add: stuck1_def init_def new_job_def)
  then obtain s' where s': "run 1 stuck1 [Cancel, WsMessage 2 [] ''id-2'' 12 hello] = Some s'" ..
  from T1 b w s' have f: "blocked_on_submit 1 s' 1" by blast
  have g: "run 1 stuck1 [Cancel, WsMessage 2 [] ''id-2'' 12 hello, Submit 1] = None"
    by (simp add: stuck1_def init_def new_job_def chan_send_def)
  from c a j0 reach b w e s' f g show ?thesis by auto
qed

text \<open>
  C9. For every message received on a WebSocket connection, whatever the request of the
  connecting caller, the chunk has user identifier "user1" and session identifier "sess1";
  the chunk does not depend on the request at all, the job the handler submits carries
  this chunk with the message as payload, and the metadata computed for it has the same
  two identifiers.
\<close>

theorem ws_identifiers_fixed:
  "UserID (ws_chunk q uuid now msg) = ''user1'' \<and>
   SessionID (ws_chunk q uuid now msg) = ''sess1'' \<and>
   ws_chunk q uuid now msg = ws_chunk q' uuid now msg \<and>
   (\<forall>s'. step cap s (WsMessage i q uuid now msg) = Some s' \<longrightarrow>
      (\<exists>job. hs s' i = HSend job \<and> Chunk job = ws_chunk q uuid now msg \<and>
         UserID (Chunk job) = ''user1'' \<and> SessionID (Chunk job) = ''sess1'' \<and>
         Data (Chunk job) = msg)) \<and>
   (\<exists>m. transform r (ws_chunk q uuid now msg) = Inr m \<and>
      mUserID m = ''user1'' \<and> mSessionID m = ''sess1'')"
proof (intro conjI allI impI)
  fix s'
  assume "step cap s (WsMessage i q uuid now msg) = Some s'"
  then show "\<exists>job. hs s' i = HSend job \<and> Chunk job = ws_chunk q uuid now msg \<and>
         UserID (Chunk job) = ''user1'' \<and> SessionID (Chunk job) = ''sess1'' \<and>
         Data (Chunk job) = msg"
    by (auto simp: new_job_def ws_chunk_def split: hpc.splits)
qed (simp_all add: ws_chunk_def transform_Inr)

theorem ws_identifiers_fixed_witness:
  "step 100 init (WsMessage 0 [(''user_id'', ''mallory'')] ''id-0'' 10 hello) =
     Some (init\<lparr>hs := (\<lambda>i. HIdle)(0 := HSend job0), next_chan := 1\<rparr>) \<and>
   UserID (Chunk job0) = ''user1'' \<and> SessionID (Chunk job0) = ''sess1'' \<and>
   Data (Chunk job0) = hello \<and>
   UserID (upload_chunk [(''user_id'', ''mallory'')] ''id-0'' 10 hello) = ''mallory''"
proof -
  let ?s' = "init\<lparr>hs := (\<lambda>i. HIdle)(0 := HSend job0), next_chan := 1\<rparr>"
  have st: "step 100 init (WsMessage 0 [(''user_id'', ''mallory'')] ''id-0'' 10 hello) = Some ?s'"
    by (simp add: init_def new_job_def job0_def)
  have h: "hs ?s' 0 = HSend job0" by simp
  from ws_identifiers_fixed [of "[(''user_id'', ''mallory'')]" "''id-0''" 10 hello _ 100 init 0] st
  obtain job where job: "hs ?s' 0 = HSend job" "UserID (Chunk job) = ''user1''"
    "SessionID (Chunk job) = ''sess1''" "Data (Chunk job) = hello"
    by blast
  from job(1) h have "job = job0" by simp
  with job st show ?thesis by (simp add: upload_chunk_def Query_Get_def)
qed

section \<open>Claims about the serialized forms\<close>

text \<open>
  C8. The payload is in no serialized form. The JSON form of a chunk does not depend on
  its payload, carries no byte sequence and has the four members chunk_id, user_id,
  session_id and timestamp. The JSON form of a Metadata record has exactly the seven
  members of the struct, none of them a payload, and neither the upload reply nor the
  WebSocket acknowledgement carries a byte sequence.
\<close>

theorem payload_not_serialized:
  "Marshal_AudioChunk (c\<lparr>Data := d\<rparr>) = Marshal_AudioChunk c \<and>
   json_bytes (Marshal_AudioChunk c) = [] \<and>
   json_keys (Marshal_AudioChunk c) = [''chunk_id'', ''user_id'', ''session_id'', ''timestamp''] \<and>
   json_keys (Marshal_Metadata m) =
     [''chunk_id'', ''user_id'', ''session_id'', ''timestamp'', ''checksum'', ''fft'',
      ''transcript''] \<and>
   json_bytes (upload_reply m) = [] \<and>
   json_bytes (ws_reply m) = [] \<and>
   json_keys (ws_reply m) =
     ''ack'' # ''chunk_id'' # ''metadata'' # json_keys (Marshal_Metadata m) @ [''transcript'']"
  by (simp add: Marshal_AudioChunk_def Marshal_Metadata_def Marshal_struct_def
      AudioChunk_fields_def Metadata_fields_def upload_reply_def ws_reply_def)

end
